theory Spec2Isabelle
  imports Main "HOL-Library.Word"
begin

section \<open>The event bus of \<^verbatim>\<open>eventbus.go\<close>\<close>

text \<open>
  The package keeps two global variables behind one \<^verbatim>\<open>sync.RWMutex\<close>: the table
  \<^verbatim>\<open>handlers\<close>, a \<^verbatim>\<open>map[reflect.Type][]handlerEntry\<close>, and the counter
  \<^verbatim>\<open>subscriberId\<close>, a \<^verbatim>\<open>uint64\<close>. Every exported function takes the lock for its whole
  body, so each call is one atomic step on the pair of globals; the embedding is therefore
  sequential: a call is a function from the state before to a result and the state after. The
  lock itself is not a component of the state.
\<close>

subsection \<open>Go types, values and \<^verbatim>\<open>reflect.TypeOf\<close>\<close>

text \<open>
  The type parameter \<^verbatim>\<open>T any\<close> ranges over every Go type. What the code can observe of a
  type is its identity and whether it is an interface type: \<^verbatim>\<open>reflect.TypeOf\<close> takes its
  argument as \<^verbatim>\<open>interface{}\<close> and returns the descriptor of the \<^emph>\<open>dynamic\<close> type stored in
  it, or the nil \<^verbatim>\<open>reflect.Type\<close> when the interface value is nil. A value of a non-interface
  type always has that type as its dynamic type; a value of an interface type is nil or carries
  some non-interface dynamic type.
\<close>

datatype gotype = Concrete string | Interface string

text \<open>A \<^verbatim>\<open>reflect.Type\<close> value; \<open>None\<close> is the nil \<^verbatim>\<open>reflect.Type\<close>.\<close>

type_synonym rtype = "gotype option"

text \<open>
  A published value as the code sees it: the dynamic type it has once boxed into
  \<^verbatim>\<open>interface{}\<close> (\<open>None\<close> for a nil interface value) and its contents.
\<close>

datatype event = Event (dyn: rtype) (contents: string)

text \<open>
  \<open>declared_as T e\<close>: \<open>e\<close> can be passed where the static type is \<open>T\<close>. For an interface
  type every non-interface dynamic type is admitted (as for \<^verbatim>\<open>any\<close>), which is at least what
  the Go type checker admits.
\<close>

fun declared_as :: "gotype \<Rightarrow> event \<Rightarrow> bool" where
  "declared_as (Concrete n) e = (dyn e = Some (Concrete n))"
| "declared_as (Interface n) e =
     (case dyn e of None \<Rightarrow> True | Some (Concrete m) \<Rightarrow> True | Some (Interface m) \<Rightarrow> False)"

text \<open>\<^verbatim>\<open>reflect.TypeOf(event)\<close>, and the type the verb \<^verbatim>\<open>%T\<close> prints for \<^verbatim>\<open>event\<close>.\<close>

definition reflect_TypeOf :: "event \<Rightarrow> rtype" where
  "reflect_TypeOf e = dyn e"

text \<open>
  \<^verbatim>\<open>reflect.TypeOf(*new(T))\<close>: the zero value of a non-interface type has that type; the zero
  value of an interface type is the nil interface, for which \<^verbatim>\<open>TypeOf\<close> returns nil.
\<close>

fun typeof_new :: "gotype \<Rightarrow> rtype" where
  "typeof_new (Concrete n) = Some (Concrete n)"
| "typeof_new (Interface n) = None"

subsection \<open>Handlers and the type assertion\<close>

text \<open>
  The field \<^verbatim>\<open>handler interface{}\<close> holds whatever was passed to \<^verbatim>\<open>Subscribe\<close>: the nil
  interface, or a value whose method \<^verbatim>\<open>OnEvent\<close> takes one fixed type. \<open>Impl T a\<close> is the
  value named \<open>a\<close> whose method is \<^verbatim>\<open>OnEvent(T)\<close>. The assertion
  \<^verbatim>\<open>h.handler.(Handler[T])\<close> succeeds exactly on the non-nil values whose \<^verbatim>\<open>OnEvent\<close> takes
  \<open>T\<close>.
\<close>

datatype handler = NilHandler | Impl gotype string

fun assert_Handler :: "gotype \<Rightarrow> handler \<Rightarrow> bool" where
  "assert_Handler T NilHandler = False"
| "assert_Handler T (Impl T' a) = (T' = T)"

text \<open>
  The struct \<^verbatim>\<open>handlerEntry\<close>; its fields \<^verbatim>\<open>id\<close> and \<^verbatim>\<open>handler\<close> are \<open>entry_id\<close> and
  \<open>entry_handler\<close> here (\<open>id\<close> is the identity function of HOL). The record \<open>registry\<close>
  holds the two package variables.
\<close>

record handlerEntry =
  entry_id :: "64 word"
  entry_handler :: handler

record registry =
  handlers :: "rtype \<rightharpoonup> handlerEntry list"
  subscriberId :: "64 word"

text \<open>The package's initial state: \<^verbatim>\<open>make(map...)\<close> and \<^verbatim>\<open>subscriberId = 0\<close>.\<close>

definition init :: registry where
  "init = \<lparr>handlers = Map.empty, subscriberId = 0\<rparr>"

text \<open>
  The two \<^verbatim>\<open>fmt.Errorf\<close> values; the argument is the type that \<^verbatim>\<open>%T\<close> prints:
  \<^verbatim>\<open>"no handler for event %T"\<close> and \<^verbatim>\<open>"handler is not of type Handler[%T]"\<close>.
\<close>

datatype error = NoHandlers rtype | HandlerTypeMismatch rtype

text \<open>
  What a dispatch does to the outside: \<open>Invoke h e\<close> is the call
  \<^verbatim>\<open>eventHandler.OnEvent(event)\<close> run to completion in the caller; \<open>Go h e\<close> is the
  statement \<^verbatim>\<open>go eventHandler.OnEvent(event)\<close>, which only starts a goroutine. Handlers are
  opaque: what a handler does inside is not part of the embedding, a called handler is taken
  to return, and when the started goroutines run is left open. (A handler that calls
  \<^verbatim>\<open>Subscribe\<close> or \<^verbatim>\<open>Unsubscribe\<close> from inside \<^verbatim>\<open>Publish\<close> waits for the write lock while
  its caller holds the read lock, and never returns.)
\<close>

datatype effect = Invoke handler event | Go handler event

subsection \<open>The functions\<close>

text \<open>\<^verbatim>\<open>atomic.AddUint64(&subscriberId, 1)\<close>: adds modulo \<open>2^64\<close> and returns the new value.\<close>

definition generateHandlerId :: "registry \<Rightarrow> 64 word \<times> registry" where
  "generateHandlerId s = (subscriberId s + 1, s\<lparr>subscriberId := subscriberId s + 1\<rparr>)"

text \<open>\<^verbatim>\<open>handlers[eventType]\<close> read as a slice: the nil slice when the key is absent.\<close>

definition slice_at :: "registry \<Rightarrow> rtype \<Rightarrow> handlerEntry list" where
  "slice_at s k = (case handlers s k of None \<Rightarrow> [] | Some hs \<Rightarrow> hs)"

definition Subscribe :: "gotype \<Rightarrow> handler \<Rightarrow> registry \<Rightarrow> 64 word \<times> registry" where
  "Subscribe T h s =
     (let (i, s1) = generateHandlerId s;
          eventType = typeof_new T
      in (i, s1\<lparr>handlers := (handlers s1)(eventType \<mapsto>
                slice_at s1 eventType @ [\<lparr>entry_id = i, entry_handler = h\<rparr>])\<rparr>))"

text \<open>
  The loop \<^verbatim>\<open>for i, h := range handler\<close> of \<^verbatim>\<open>Unsubscribe\<close>: the index of the first entry
  whose id is the one asked for, counted from \<open>i\<close>.

  \<^verbatim>\<open>append(handler[:i], handler[i+1:]...)\<close> shifts the tail down inside the backing array of
  the slice. The map entry is the only reference to that array that outlives a call (the local
  slice headers of \<^verbatim>\<open>Publish\<close> live under the read lock, which excludes this writer), so
  the stored slice is a list and the statement replaces it by \<open>take i hs @ drop (Suc i) hs\<close>.
\<close>

fun scan :: "handlerEntry list \<Rightarrow> nat \<Rightarrow> 64 word \<Rightarrow> nat option" where
  "scan [] i subscriptionID = None"
| "scan (h # rest) i subscriptionID =
     (if entry_id h = subscriptionID then Some i else scan rest (Suc i) subscriptionID)"

definition Unsubscribe :: "gotype \<Rightarrow> 64 word \<Rightarrow> registry \<Rightarrow> bool \<times> registry" where
  "Unsubscribe T subscriptionID s =
     (let eventType = typeof_new T
      in case handlers s eventType of
           None \<Rightarrow> (False, s)
         | Some hs \<Rightarrow>
             (case scan hs 0 subscriptionID of
                Some i \<Rightarrow> (True, s\<lparr>handlers := (handlers s)(eventType \<mapsto> take i hs @ drop (Suc i) hs)\<rparr>)
              | None \<Rightarrow> (False, s)))"

text \<open>
  The loop of \<^verbatim>\<open>Publish\<close>, \<^verbatim>\<open>for _, h := range handler\<close>: \<open>fx\<close> is what has been done so
  far. A failed assertion returns at once; otherwise the handler is called and the loop goes on.
\<close>

fun Publish_loop ::
  "gotype \<Rightarrow> event \<Rightarrow> handlerEntry list \<Rightarrow> effect list \<Rightarrow> error option \<times> effect list" where
  "Publish_loop T e [] fx = (None, fx)"
| "Publish_loop T e (h # rest) fx =
     (if assert_Handler T (entry_handler h)
      then Publish_loop T e rest (fx @ [Invoke (entry_handler h) e])
      else (Some (HandlerTypeMismatch (reflect_TypeOf e)), fx))"

definition Publish :: "gotype \<Rightarrow> event \<Rightarrow> registry \<Rightarrow> error option \<times> effect list \<times> registry" where
  "Publish T e s =
     (let eventType = reflect_TypeOf e
      in case handlers s eventType of
           None \<Rightarrow> (Some (NoHandlers (reflect_TypeOf e)), [], s)
         | Some hs \<Rightarrow> (let (r, fx) = Publish_loop T e hs [] in (r, fx, s)))"

text \<open>The loop of \<^verbatim>\<open>PublishAsync\<close>: the same, with the \<^verbatim>\<open>go\<close> statement for the call.\<close>

fun PublishAsync_loop ::
  "gotype \<Rightarrow> event \<Rightarrow> handlerEntry list \<Rightarrow> effect list \<Rightarrow> error option \<times> effect list" where
  "PublishAsync_loop T e [] fx = (None, fx)"
| "PublishAsync_loop T e (h # rest) fx =
     (if assert_Handler T (entry_handler h)
      then PublishAsync_loop T e rest (fx @ [Go (entry_handler h) e])
      else (Some (HandlerTypeMismatch (reflect_TypeOf e)), fx))"

definition PublishAsync :: "gotype \<Rightarrow> event \<Rightarrow> registry \<Rightarrow> error option \<times> effect list \<times> registry" where
  "PublishAsync T e s =
     (let eventType = reflect_TypeOf e
      in case handlers s eventType of
           None \<Rightarrow> (Some (NoHandlers (reflect_TypeOf e)), [], s)
         | Some hs \<Rightarrow> (let (r, fx) = PublishAsync_loop T e hs [] in (r, fx, s)))"

subsection \<open>Runs of the package\<close>

text \<open>
  A process lifetime is a sequence of calls of the four functions, starting from \<open>init\<close>.
  \<open>run\<close> performs the calls in order and returns what each call returned.
\<close>

datatype op =
    SubscribeOp gotype handler
  | UnsubscribeOp gotype "64 word"
  | PublishOp gotype event
  | PublishAsyncOp gotype event

datatype ret = Id "64 word" | Removed bool | Result "error option" "effect list"

fun step :: "op \<Rightarrow> registry \<Rightarrow> ret \<times> registry" where
  "step (SubscribeOp T h) s = (let (i, s') = Subscribe T h s in (Id i, s'))"
| "step (UnsubscribeOp T i) s = (let (b, s') = Unsubscribe T i s in (Removed b, s'))"
| "step (PublishOp T e) s = (let (r, fx, s') = Publish T e s in (Result r fx, s'))"
| "step (PublishAsyncOp T e) s = (let (r, fx, s') = PublishAsync T e s in (Result r fx, s'))"

fun run :: "op list \<Rightarrow> registry \<Rightarrow> (op \<times> ret) list \<times> registry" where
  "run [] s = ([], s)"
| "run (c # cs) s =
     (let (r, s1) = step c s; (log, s2) = run cs s1 in ((c, r) # log, s2))"

text \<open>The ids that the \<^verbatim>\<open>Subscribe\<close> calls of a run returned, in call order.\<close>

fun ids_of :: "(op \<times> ret) list \<Rightarrow> 64 word list" where
  "ids_of [] = []"
| "ids_of ((SubscribeOp T h, Id i) # log) = i # ids_of log"
| "ids_of (x # log) = ids_of log"

text \<open>The ids returned by the \<^verbatim>\<open>Subscribe\<close> calls of a run that filed their entry under key \<open>k\<close>.\<close>

fun issued_under :: "rtype \<Rightarrow> (op \<times> ret) list \<Rightarrow> 64 word list" where
  "issued_under k [] = []"
| "issued_under k ((SubscribeOp T h, Id i) # log) =
     (if typeof_new T = k then i # issued_under k log else issued_under k log)"
| "issued_under k (x # log) = issued_under k log"

text \<open>How many \<^verbatim>\<open>Subscribe\<close> calls a sequence of calls holds.\<close>

fun subscribes :: "op list \<Rightarrow> nat" where
  "subscribes [] = 0"
| "subscribes (SubscribeOp T h # cs) = Suc (subscribes cs)"
| "subscribes (c # cs) = subscribes cs"

text \<open>\<open>n\<close> calls \<^verbatim>\<open>Subscribe[T](h)\<close> in a row; the ids they return, in order, and the state after.\<close>

fun Subscribe_times :: "nat \<Rightarrow> gotype \<Rightarrow> handler \<Rightarrow> registry \<Rightarrow> 64 word list \<times> registry" where
  "Subscribe_times 0 T h s = ([], s)"
| "Subscribe_times (Suc n) T h s =
     (let (i, s1) = Subscribe T h s; (js, s2) = Subscribe_times n T h s1 in (i # js, s2))"

text \<open>
  Whether a sequence of calls holds an \<^verbatim>\<open>Unsubscribe\<close> of the id \<open>j\<close> for a type filed under
  key \<open>k\<close>.
\<close>

fun unsubscribed :: "rtype \<Rightarrow> 64 word \<Rightarrow> op list \<Rightarrow> bool" where
  "unsubscribed k j [] = False"
| "unsubscribed k j (UnsubscribeOp T i # cs) = ((typeof_new T = k \<and> i = j) \<or> unsubscribed k j cs)"
| "unsubscribed k j (c # cs) = unsubscribed k j cs"

text \<open>
  An invariant of the runs in which the counter has not wrapped: no entry of the table carries
  an id above the counter.
\<close>

definition ids_bounded :: "registry \<Rightarrow> bool" where
  "ids_bounded s \<longleftrightarrow> (\<forall>k. \<forall>x\<in>set (slice_at s k). unat (entry_id x) \<le> unat (subscriberId s))"

text \<open>A second invariant of those runs: within one slice no two entries carry the same id.\<close>

definition ids_distinct :: "registry \<Rightarrow> bool" where
  "ids_distinct s \<longleftrightarrow> (\<forall>k. distinct (map entry_id (slice_at s k)))"

section \<open>Properties\<close>

subsection \<open>The two keys\<close>

text \<open>
  For a value of a non-interface type the key that \<^verbatim>\<open>Publish\<close> looks up is the key under
  which \<^verbatim>\<open>Subscribe\<close> files the handlers of that type. For an interface type the two keys
  differ unless the value is nil.
\<close>

lemma key_of_declared_value:
  "declared_as (Concrete n) e \<Longrightarrow> reflect_TypeOf e = typeof_new (Concrete n)"
  by (simp add: reflect_TypeOf_def)

lemma key_of_nil_value: "reflect_TypeOf (Event None c) = typeof_new (Interface n)"
  by (simp add: reflect_TypeOf_def)

subsection \<open>The loops\<close>

lemma Publish_loop_good:
  "\<forall>x\<in>set hs. assert_Handler T (entry_handler x) \<Longrightarrow>
   Publish_loop T e hs fx = (None, fx @ map (\<lambda>x. Invoke (entry_handler x) e) hs)"
  by (induction hs arbitrary: fx) auto

lemma Publish_loop_bad:
  "k < length hs \<Longrightarrow> \<not> assert_Handler T (entry_handler (hs ! k)) \<Longrightarrow>
   \<forall>j<k. assert_Handler T (entry_handler (hs ! j)) \<Longrightarrow>
   Publish_loop T e hs fx =
     (Some (HandlerTypeMismatch (reflect_TypeOf e)), fx @ map (\<lambda>x. Invoke (entry_handler x) e) (take k hs))"
proof (induction hs arbitrary: fx k)
  case Nil
  then show ?case by simp
next
  case (Cons h rest)
  show ?case
  proof (cases k)
    case 0
    with Cons.prems show ?thesis by simp
  next
    case (Suc k')
    from Cons.prems Suc have h: "assert_Handler T (entry_handler h)" by auto
    from Cons.prems Suc have a: "k' < length rest" "\<not> assert_Handler T (entry_handler (rest ! k'))"
      by auto
    from Cons.prems Suc have b: "\<forall>j<k'. assert_Handler T (entry_handler (rest ! j))"
      by auto
    from Cons.IH [OF a b] h Suc show ?thesis by simp
  qed
qed

lemma PublishAsync_loop_good:
  "\<forall>x\<in>set hs. assert_Handler T (entry_handler x) \<Longrightarrow>
   PublishAsync_loop T e hs fx = (None, fx @ map (\<lambda>x. Go (entry_handler x) e) hs)"
  by (induction hs arbitrary: fx) auto

lemma PublishAsync_loop_bad:
  "k < length hs \<Longrightarrow> \<not> assert_Handler T (entry_handler (hs ! k)) \<Longrightarrow>
   \<forall>j<k. assert_Handler T (entry_handler (hs ! j)) \<Longrightarrow>
   PublishAsync_loop T e hs fx =
     (Some (HandlerTypeMismatch (reflect_TypeOf e)), fx @ map (\<lambda>x. Go (entry_handler x) e) (take k hs))"
proof (induction hs arbitrary: fx k)
  case Nil
  then show ?case by simp
next
  case (Cons h rest)
  show ?case
  proof (cases k)
    case 0
    with Cons.prems show ?thesis by simp
  next
    case (Suc k')
    from Cons.prems Suc have h: "assert_Handler T (entry_handler h)" by auto
    from Cons.prems Suc have a: "k' < length rest" "\<not> assert_Handler T (entry_handler (rest ! k'))"
      by auto
    from Cons.prems Suc have b: "\<forall>j<k'. assert_Handler T (entry_handler (rest ! j))"
      by auto
    from Cons.IH [OF a b] h Suc show ?thesis by simp
  qed
qed

lemma loops_same_error:
  "fst (PublishAsync_loop T e hs fx) = fst (Publish_loop T e hs fx')"
  by (induction hs arbitrary: fx fx') auto

text \<open>
  Whatever \<^verbatim>\<open>Publish\<close> calls is a handler that passed the assertion to \<^verbatim>\<open>Handler[T]\<close>, and
  it is called with the published value.
\<close>

lemma Publish_loop_typed:
  "set (snd (Publish_loop T e hs fx)) \<subseteq> set fx \<union> {Invoke h e | h. assert_Handler T h}"
proof (induction hs arbitrary: fx)
  case Nil
  then show ?case by simp
next
  case (Cons a hs)
  show ?case
  proof (cases "assert_Handler T (entry_handler a)")
    case True
    with Cons.IH [of "fx @ [Invoke (entry_handler a) e]"] show ?thesis by auto
  next
    case False
    then show ?thesis by simp
  qed
qed

lemma Publish_invokes_typed_only:
  assumes "x \<in> set (fst (snd (Publish T e s)))"
  shows "\<exists>h. x = Invoke h e \<and> assert_Handler T h"
proof (cases "handlers s (reflect_TypeOf e)")
  case None
  with assms show ?thesis by (simp add: Publish_def Let_def)
next
  case (Some hs)
  with assms have "x \<in> set (snd (Publish_loop T e hs []))"
    by (simp add: Publish_def Let_def split_beta)
  with Publish_loop_typed [of T e hs "[]"] show ?thesis by auto
qed

subsection \<open>The scan of \<^verbatim>\<open>Unsubscribe\<close>\<close>

lemma scan_None: "scan hs i x = None \<longleftrightarrow> x \<notin> entry_id ` set hs"
  by (induction hs arbitrary: i) auto

lemma scan_absent: "x \<notin> entry_id ` set hs \<Longrightarrow> scan hs i x = None"
  by (simp add: scan_None)

lemma scan_first:
  "x \<notin> entry_id ` set pre \<Longrightarrow> entry_id y = x \<Longrightarrow> scan (pre @ y # post) i x = Some (i + length pre)"
  by (induction pre arbitrary: i) auto

lemma first_with_id:
  "x \<in> entry_id ` set hs \<Longrightarrow>
   \<exists>pre y post. hs = pre @ y # post \<and> entry_id y = x \<and> x \<notin> entry_id ` set pre"
proof (induction hs)
  case Nil
  then show ?case by simp
next
  case (Cons h rest)
  show ?case
  proof (cases "entry_id h = x")
    case True
    then have "h # rest = [] @ h # rest \<and> entry_id h = x \<and> x \<notin> entry_id ` set []" by simp
    then show ?thesis by blast
  next
    case False
    with Cons.prems have "x \<in> entry_id ` set rest" by auto
    from Cons.IH [OF this] obtain pre y post
      where "rest = pre @ y # post" "entry_id y = x" "x \<notin> entry_id ` set pre" by blast
    with False have "h # rest = (h # pre) @ y # post \<and> entry_id y = x \<and> x \<notin> entry_id ` set (h # pre)"
      by auto
    then show ?thesis by blast
  qed
qed

lemma Unsubscribe_absent:
  "x \<notin> entry_id ` set (slice_at s (typeof_new T)) \<Longrightarrow> Unsubscribe T x s = (False, s)"
  by (cases "handlers s (typeof_new T)") (simp_all add: Unsubscribe_def slice_at_def scan_absent Let_def)

lemma Unsubscribe_present:
  "handlers s (typeof_new T) = Some (pre @ y # post) \<Longrightarrow> entry_id y = x \<Longrightarrow>
   x \<notin> entry_id ` set pre \<Longrightarrow>
   Unsubscribe T x s = (True, s\<lparr>handlers := (handlers s)(typeof_new T \<mapsto> pre @ post)\<rparr>)"
  by (simp add: Unsubscribe_def scan_first Let_def)

lemma Unsubscribe_result:
  "fst (Unsubscribe T x s) \<longleftrightarrow> x \<in> entry_id ` set (slice_at s (typeof_new T))"
proof (cases "handlers s (typeof_new T)")
  case None
  then show ?thesis by (simp add: Unsubscribe_def slice_at_def Let_def)
next
  case (Some hs)
  show ?thesis
  proof (cases "scan hs 0 x")
    case None
    with Some show ?thesis
      using scan_None [of hs 0 x] by (simp add: Unsubscribe_def slice_at_def Let_def)
  next
    case (Some i)
    with \<open>handlers s (typeof_new T) = Some hs\<close> show ?thesis
      using scan_None [of hs 0 x] by (simp add: Unsubscribe_def slice_at_def Let_def)
  qed
qed

lemma Subscribe_fst: "fst (Subscribe T h s) = subscriberId s + 1"
  by (simp add: Subscribe_def generateHandlerId_def Let_def)

lemma Subscribe_snd:
  "snd (Subscribe T h s) =
     \<lparr>handlers = (handlers s)(typeof_new T \<mapsto>
        slice_at s (typeof_new T) @ [\<lparr>entry_id = subscriberId s + 1, entry_handler = h\<rparr>]),
      subscriberId = subscriberId s + 1\<rparr>"
  by (simp add: Subscribe_def generateHandlerId_def slice_at_def Let_def)

lemma Publish_frame: "snd (snd (Publish T e s)) = s"
  by (simp add: Publish_def Let_def split: option.splits prod.splits)

lemma PublishAsync_frame: "snd (snd (PublishAsync T e s)) = s"
  by (simp add: PublishAsync_def Let_def split: option.splits prod.splits)

subsection \<open>Dispatch\<close>

text \<open>
  C1. The claim: for a type with no subscriber, whether its key was never filed or all its
  handlers were removed again, \<^verbatim>\<open>Publish\<close> and \<^verbatim>\<open>PublishAsync\<close> fail with the no-handler
  error. The code at the input of the claim: on the initial table the key of \<^verbatim>\<open>Ping\<close> is
  absent and both functions return the error; after one \<^verbatim>\<open>Subscribe[Ping]\<close> and the
  \<^verbatim>\<open>Unsubscribe[Ping]\<close> of the id it returned, the key is present with the empty slice, the
  test \<^verbatim>\<open>!ok\<close> does not fire, the loop runs zero times and both functions return \<^verbatim>\<open>nil\<close>.
\<close>

theorem Publish_after_last_Unsubscribe_succeeds:
  "(let T = Concrete ''Ping''; e = Event (Some T) ''Ping{}'';
        (i, s1) = Subscribe T (Impl T ''h'') init;
        (removed, s2) = Unsubscribe T i s1
    in removed \<and> handlers init (typeof_new T) = None \<and> handlers s2 (typeof_new T) = Some [] \<and>
       fst (Publish T e init) = Some (NoHandlers (Some T)) \<and>
       fst (PublishAsync T e init) = Some (NoHandlers (Some T)) \<and>
       fst (Publish T e s2) = None \<and> fst (PublishAsync T e s2) = None)"
  by (simp add: Subscribe_def Unsubscribe_def Publish_def PublishAsync_def generateHandlerId_def
      slice_at_def init_def reflect_TypeOf_def Let_def)

text \<open>
  C2. The claim: the table key depends only on the declared type \<open>T\<close>, never on the dynamic
  type of the published value. The code at an interface type: \<^verbatim>\<open>Subscribe[any]\<close> files the
  handler under \<^verbatim>\<open>reflect.TypeOf(*new(any))\<close>, the nil type, while \<^verbatim>\<open>Publish[any]\<close> looks up
  \<^verbatim>\<open>reflect.TypeOf(event)\<close>, the dynamic type of the value. Two values of declared type
  \<^verbatim>\<open>any\<close>, an \<^verbatim>\<open>int\<close> and a \<^verbatim>\<open>string\<close>, get two keys, neither of them the key of the
  subscription, and the published value finds no handler.
\<close>

theorem Publish_key_is_dynamic_type:
  "(let T = Interface ''any'';
        a = Event (Some (Concrete ''int'')) ''42'';
        b = Event (Some (Concrete ''string'')) ''x'';
        (i, s1) = Subscribe T (Impl T ''h'') init
    in declared_as T a \<and> declared_as T b \<and> reflect_TypeOf a \<noteq> reflect_TypeOf b \<and>
       reflect_TypeOf a \<noteq> typeof_new T \<and>
       slice_at s1 (typeof_new T) = [\<lparr>entry_id = 1, entry_handler = Impl T ''h''\<rparr>] \<and>
       Publish T a s1 = (Some (NoHandlers (Some (Concrete ''int''))), [], s1))"
  by (simp add: Subscribe_def Publish_def generateHandlerId_def
      slice_at_def init_def reflect_TypeOf_def Let_def)

text \<open>
  C3. When the slice that \<^verbatim>\<open>Publish\<close> finds for the event holds the entries \<open>hs\<close>, in the
  order of their registration, and every one of them passes the assertion to \<^verbatim>\<open>Handler[T]\<close>,
  then \<^verbatim>\<open>Publish\<close> calls the handler of each entry once, in that order, each call completed
  in the caller before the next (\<open>Invoke\<close>), and returns \<^verbatim>\<open>nil\<close>. The slice is the one under
  \<^verbatim>\<open>reflect.TypeOf(event)\<close>, which for a value of a non-interface type \<open>T\<close> is the slice that
  \<^verbatim>\<open>Subscribe[T]\<close> appends to.
\<close>

theorem Publish_invokes_all_in_order:
  assumes "handlers s (reflect_TypeOf e) = Some hs"
      and "\<forall>x\<in>set hs. assert_Handler T (entry_handler x)"
  shows "Publish T e s = (None, map (\<lambda>x. Invoke (entry_handler x) e) hs, s)"
  using assms by (simp add: Publish_def Publish_loop_good Let_def)

theorem Publish_invokes_all_in_order_witness:
  "(let T = Concrete ''Ping''; e = Event (Some T) ''Ping{}'';
        (i1, s1) = Subscribe T (Impl T ''h1'') init;
        (i2, s2) = Subscribe T (Impl T ''h2'') s1;
        (i3, s3) = Subscribe T (Impl T ''h3'') s2
    in handlers s3 (reflect_TypeOf e) =
         Some [\<lparr>entry_id = 1, entry_handler = Impl T ''h1''\<rparr>,
               \<lparr>entry_id = 2, entry_handler = Impl T ''h2''\<rparr>,
               \<lparr>entry_id = 3, entry_handler = Impl T ''h3''\<rparr>] \<and>
       Publish T e s3 =
         (None, [Invoke (Impl T ''h1'') e, Invoke (Impl T ''h2'') e, Invoke (Impl T ''h3'') e], s3))"
  using Publish_invokes_all_in_order
          [of "snd (Subscribe (Concrete ''Ping'') (Impl (Concrete ''Ping'') ''h3'')
                 (snd (Subscribe (Concrete ''Ping'') (Impl (Concrete ''Ping'') ''h2'')
                   (snd (Subscribe (Concrete ''Ping'') (Impl (Concrete ''Ping'') ''h1'') init)))))"
              "Event (Some (Concrete ''Ping'')) ''Ping{}''"
              "[\<lparr>entry_id = 1, entry_handler = Impl (Concrete ''Ping'') ''h1''\<rparr>,
                \<lparr>entry_id = 2, entry_handler = Impl (Concrete ''Ping'') ''h2''\<rparr>,
                \<lparr>entry_id = 3, entry_handler = Impl (Concrete ''Ping'') ''h3''\<rparr>]"
              "Concrete ''Ping''"]
  by (simp add: Subscribe_def generateHandlerId_def slice_at_def init_def reflect_TypeOf_def Let_def)

text \<open>
  C4. When the slice that \<^verbatim>\<open>Publish\<close> finds for the event has its first entry failing the
  assertion to \<^verbatim>\<open>Handler[T]\<close> at index \<open>k\<close> (counted from 0, so \<open>k\<close> entries precede it),
  \<^verbatim>\<open>Publish\<close> calls exactly the handlers of the \<open>k\<close> entries before it, in order, calls
  neither that entry nor any later one, and returns the mismatch error with the type that
  \<^verbatim>\<open>%T\<close> prints for the event, which for a value of a non-interface type \<open>T\<close> is \<open>T\<close>.
\<close>

theorem Publish_stops_at_first_mismatch:
  assumes "handlers s (reflect_TypeOf e) = Some hs"
      and "k < length hs"
      and "\<not> assert_Handler T (entry_handler (hs ! k))"
      and "\<forall>j<k. assert_Handler T (entry_handler (hs ! j))"
  shows "Publish T e s =
           (Some (HandlerTypeMismatch (reflect_TypeOf e)),
            map (\<lambda>x. Invoke (entry_handler x) e) (take k hs), s)"
  using assms by (simp add: Publish_def Let_def Publish_loop_bad)

theorem Publish_stops_at_first_mismatch_witness:
  "(let T = Concrete ''Ping''; e = Event (Some T) ''Ping{}'';
        (i1, s1) = Subscribe T (Impl T ''h1'') init;
        (i2, s2) = Subscribe T NilHandler s1;
        (i3, s3) = Subscribe T (Impl T ''h3'') s2
    in declared_as T e \<and>
       handlers s3 (reflect_TypeOf e) =
         Some [\<lparr>entry_id = 1, entry_handler = Impl T ''h1''\<rparr>,
               \<lparr>entry_id = 2, entry_handler = NilHandler\<rparr>,
               \<lparr>entry_id = 3, entry_handler = Impl T ''h3''\<rparr>] \<and>
       Publish T e s3 = (Some (HandlerTypeMismatch (Some T)), [Invoke (Impl T ''h1'') e], s3))"
  using Publish_stops_at_first_mismatch
          [of "snd (Subscribe (Concrete ''Ping'') (Impl (Concrete ''Ping'') ''h3'')
                 (snd (Subscribe (Concrete ''Ping'') NilHandler
                   (snd (Subscribe (Concrete ''Ping'') (Impl (Concrete ''Ping'') ''h1'') init)))))"
              "Event (Some (Concrete ''Ping'')) ''Ping{}''"
              "[\<lparr>entry_id = 1, entry_handler = Impl (Concrete ''Ping'') ''h1''\<rparr>,
                \<lparr>entry_id = 2, entry_handler = NilHandler\<rparr>,
                \<lparr>entry_id = 3, entry_handler = Impl (Concrete ''Ping'') ''h3''\<rparr>]"
              1 "Concrete ''Ping''"]
  by (simp add: Subscribe_def generateHandlerId_def slice_at_def init_def reflect_TypeOf_def Let_def)

text \<open>
  C5. \<^verbatim>\<open>PublishAsync\<close> returns the same error, or \<^verbatim>\<open>nil\<close>, as \<^verbatim>\<open>Publish\<close> on every input.
  With the first failing entry at index \<open>k\<close> it has started a goroutine (\<open>Go\<close>) for each of
  the \<open>k\<close> entries before it and for no other, and returns the mismatch error; with no
  failing entry it has started one goroutine per entry and returns \<^verbatim>\<open>nil\<close>. Everything it
  does to a handler is a \<^verbatim>\<open>go\<close> statement: it runs no handler itself and waits for none.
\<close>

theorem PublishAsync_schedules_as_Publish:
  "fst (PublishAsync T e s) = fst (Publish T e s) \<and>
   (\<forall>hs. handlers s (reflect_TypeOf e) = Some hs \<longrightarrow>
      (\<forall>k. k < length hs \<and> \<not> assert_Handler T (entry_handler (hs ! k)) \<and>
           (\<forall>j<k. assert_Handler T (entry_handler (hs ! j))) \<longrightarrow>
           PublishAsync T e s =
             (Some (HandlerTypeMismatch (reflect_TypeOf e)),
              map (\<lambda>x. Go (entry_handler x) e) (take k hs), s)) \<and>
      ((\<forall>x\<in>set hs. assert_Handler T (entry_handler x)) \<longrightarrow>
           PublishAsync T e s = (None, map (\<lambda>x. Go (entry_handler x) e) hs, s)))"
proof (intro conjI allI impI)
  show "fst (PublishAsync T e s) = fst (Publish T e s)"
    using loops_same_error [of T e _ "[]" "[]"]
    by (simp add: Publish_def PublishAsync_def Let_def split_beta split: option.splits)
next
  fix hs k
  assume "handlers s (reflect_TypeOf e) = Some hs"
    and "k < length hs \<and> \<not> assert_Handler T (entry_handler (hs ! k)) \<and>
         (\<forall>j<k. assert_Handler T (entry_handler (hs ! j)))"
  then show "PublishAsync T e s =
      (Some (HandlerTypeMismatch (reflect_TypeOf e)), map (\<lambda>x. Go (entry_handler x) e) (take k hs), s)"
    using PublishAsync_loop_bad [of k hs T e "[]"] by (simp add: PublishAsync_def Let_def)
next
  fix hs
  assume "handlers s (reflect_TypeOf e) = Some hs"
    and "\<forall>x\<in>set hs. assert_Handler T (entry_handler x)"
  then show "PublishAsync T e s = (None, map (\<lambda>x. Go (entry_handler x) e) hs, s)"
    by (simp add: PublishAsync_def Let_def PublishAsync_loop_good)
qed

theorem PublishAsync_schedules_as_Publish_witness:
  "(let T = Concrete ''Ping''; e = Event (Some T) ''Ping{}'';
        (i1, s1) = Subscribe T (Impl T ''h1'') init;
        (i2, s2) = Subscribe T (Impl T ''h2'') s1;
        (i3, s3) = Subscribe T NilHandler s2;
        (i4, s4) = Subscribe T (Impl T ''h4'') s3
    in PublishAsync T e s2 = (None, [Go (Impl T ''h1'') e, Go (Impl T ''h2'') e], s2) \<and>
       Publish T e s2 = (None, [Invoke (Impl T ''h1'') e, Invoke (Impl T ''h2'') e], s2) \<and>
       PublishAsync T e s4 =
         (Some (HandlerTypeMismatch (Some T)), [Go (Impl T ''h1'') e, Go (Impl T ''h2'') e], s4) \<and>
       fst (Publish T e s4) = Some (HandlerTypeMismatch (Some T)))"
proof -
  let ?T = "Concrete ''Ping''"
  let ?e = "Event (Some ?T) ''Ping{}''"
  let ?s2 = "snd (Subscribe ?T (Impl ?T ''h2'') (snd (Subscribe ?T (Impl ?T ''h1'') init)))"
  let ?s4 = "snd (Subscribe ?T (Impl ?T ''h4'') (snd (Subscribe ?T NilHandler ?s2)))"
  let ?hs2 = "[\<lparr>entry_id = 1, entry_handler = Impl ?T ''h1''\<rparr>,
               \<lparr>entry_id = 2, entry_handler = Impl ?T ''h2''\<rparr>]"
  let ?hs4 = "?hs2 @ [\<lparr>entry_id = 3, entry_handler = NilHandler\<rparr>,
                      \<lparr>entry_id = 4, entry_handler = Impl ?T ''h4''\<rparr>]"
  have t2: "handlers ?s2 (reflect_TypeOf ?e) = Some ?hs2"
    by (simp add: Subscribe_def generateHandlerId_def slice_at_def init_def reflect_TypeOf_def Let_def)
  have t4: "handlers ?s4 (reflect_TypeOf ?e) = Some ?hs4"
    by (simp add: Subscribe_def generateHandlerId_def slice_at_def init_def reflect_TypeOf_def Let_def)
  have good: "\<forall>x\<in>set ?hs2. assert_Handler ?T (entry_handler x)" by simp
  have bad: "2 < length ?hs4 \<and> \<not> assert_Handler ?T (entry_handler (?hs4 ! 2)) \<and>
             (\<forall>j<2. assert_Handler ?T (entry_handler (?hs4 ! j)))"
    by (simp add: less_Suc_eq numeral_2_eq_2)
  from PublishAsync_schedules_as_Publish [of ?T ?e ?s2] t2 good
  have a: "PublishAsync ?T ?e ?s2 = (None, map (\<lambda>x. Go (entry_handler x) ?e) ?hs2, ?s2)"
    by blast
  from PublishAsync_schedules_as_Publish [of ?T ?e ?s4] t4 bad
  have b: "PublishAsync ?T ?e ?s4 =
      (Some (HandlerTypeMismatch (reflect_TypeOf ?e)), map (\<lambda>x. Go (entry_handler x) ?e) (take 2 ?hs4), ?s4)"
    by blast
  from PublishAsync_schedules_as_Publish [of ?T ?e ?s4]
  have c: "fst (PublishAsync ?T ?e ?s4) = fst (Publish ?T ?e ?s4)" by blast
  have d: "Publish ?T ?e ?s2 = (None, map (\<lambda>x. Invoke (entry_handler x) ?e) ?hs2, ?s2)"
    using t2 good by (simp add: Publish_def Let_def Publish_loop_good)
  from a b c d show ?thesis
    by (simp add: Let_def split_beta reflect_TypeOf_def)
qed

text \<open>
  C9. \<^verbatim>\<open>Publish\<close> and \<^verbatim>\<open>PublishAsync\<close> leave the table and the counter as they were,
  whatever they return.
\<close>

theorem Publish_leaves_registry:
  "snd (snd (Publish T e s)) = s \<and> snd (snd (PublishAsync T e s)) = s"
  by (simp add: Publish_frame PublishAsync_frame)


subsection \<open>Subscriptions over a run\<close>

lemma slice_at_Subscribe:
  "slice_at (snd (Subscribe T h s)) k =
     (if k = typeof_new T
      then slice_at s k @ [\<lparr>entry_id = subscriberId s + 1, entry_handler = h\<rparr>]
      else slice_at s k)"
  by (simp add: Subscribe_snd slice_at_def)

lemma subscriberId_Subscribe: "subscriberId (snd (Subscribe T h s)) = subscriberId s + 1"
  by (simp add: Subscribe_snd)

lemma subscriberId_Unsubscribe: "subscriberId (snd (Unsubscribe T i s)) = subscriberId s"
  by (simp add: Unsubscribe_def Let_def split: option.splits)

lemma slice_at_Unsubscribe_other:
  "k \<noteq> typeof_new T \<Longrightarrow> slice_at (snd (Unsubscribe T i s)) k = slice_at s k"
  by (simp add: Unsubscribe_def Let_def slice_at_def split: option.splits)

lemma set_slice_at_Unsubscribe:
  "set (slice_at (snd (Unsubscribe T i s)) k) \<subseteq> set (slice_at s k)"
proof (cases "k = typeof_new T")
  case False
  then show ?thesis by (simp add: slice_at_Unsubscribe_other)
next
  case True
  show ?thesis
  proof (cases "i \<in> entry_id ` set (slice_at s (typeof_new T))")
    case False
    then show ?thesis by (simp add: Unsubscribe_absent)
  next
    case in_slice: True
    then obtain hs where hs: "handlers s (typeof_new T) = Some hs" "slice_at s (typeof_new T) = hs"
      by (cases "handlers s (typeof_new T)") (auto simp: slice_at_def)
    with in_slice first_with_id [of i hs] obtain pre y post
      where d: "hs = pre @ y # post" "entry_id y = i" "i \<notin> entry_id ` set pre" by blast
    from hs d Unsubscribe_present [of s T pre y post i]
    have "Unsubscribe T i s = (True, s\<lparr>handlers := (handlers s)(typeof_new T \<mapsto> pre @ post)\<rparr>)"
      by simp
    with True hs d show ?thesis by (auto simp: slice_at_def)
  qed
qed

lemma unat_Suc_word: "unat (c :: 64 word) < 2 ^ 64 - 1 \<Longrightarrow> unat (c + 1) = Suc (unat c)"
  by (simp add: unat_word_ariths)

lemma ids_bounded_Subscribe:
  assumes "ids_bounded s" and "unat (subscriberId s) < 2 ^ 64 - 1"
  shows "ids_bounded (snd (Subscribe T h s))"
  using assms
  by (auto simp: ids_bounded_def slice_at_Subscribe subscriberId_Subscribe unat_Suc_word le_Suc_eq)

lemma ids_bounded_Unsubscribe:
  assumes "ids_bounded s"
  shows "ids_bounded (snd (Unsubscribe T i s))"
  using assms set_slice_at_Unsubscribe [of T i s]
  by (auto simp: ids_bounded_def subscriberId_Unsubscribe)

lemma ids_bounded_init: "ids_bounded init"
  by (simp add: ids_bounded_def init_def slice_at_def)

lemma run_bounded:
  "ids_bounded s \<Longrightarrow> unat (subscriberId s) + subscribes cs < 2 ^ 64 \<Longrightarrow>
   ids_bounded (snd (run cs s)) \<and>
   unat (subscriberId (snd (run cs s))) = unat (subscriberId s) + subscribes cs"
proof (induction cs arbitrary: s)
  case Nil
  then show ?case by simp
next
  case (Cons c cs)
  show ?case
  proof (cases c)
    case (SubscribeOp T h)
    from Cons.prems SubscribeOp have lt: "unat (subscriberId s) < 2 ^ 64 - 1" by simp
    let ?s1 = "snd (Subscribe T h s)"
    have b: "ids_bounded ?s1" using Cons.prems(1) lt by (rule ids_bounded_Subscribe)
    have n: "unat (subscriberId ?s1) = Suc (unat (subscriberId s))"
      using lt by (simp add: subscriberId_Subscribe unat_Suc_word)
    with Cons.prems SubscribeOp have "unat (subscriberId ?s1) + subscribes cs < 2 ^ 64" by simp
    from Cons.IH [OF b this] n SubscribeOp show ?thesis
      by (simp add: split_beta Let_def)
  next
    case (UnsubscribeOp T i)
    let ?s1 = "snd (Unsubscribe T i s)"
    have b: "ids_bounded ?s1" using Cons.prems(1) by (rule ids_bounded_Unsubscribe)
    have n: "subscriberId ?s1 = subscriberId s" by (rule subscriberId_Unsubscribe)
    with Cons.prems UnsubscribeOp have "unat (subscriberId ?s1) + subscribes cs < 2 ^ 64" by simp
    from Cons.IH [OF b this] n UnsubscribeOp show ?thesis
      by (simp add: split_beta Let_def)
  next
    case (PublishOp T e)
    with Cons show ?thesis by (simp add: split_beta Let_def Publish_frame)
  next
    case (PublishAsyncOp T e)
    with Cons show ?thesis by (simp add: split_beta Let_def PublishAsync_frame)
  qed
qed

lemma run_ids:
  "ids_of (fst (run cs s)) = map (\<lambda>k. subscriberId s + of_nat k) [1..<Suc (subscribes cs)]"
proof (induction cs arbitrary: s)
  case Nil
  then show ?case by simp
next
  case (Cons c cs)
  show ?case
  proof (cases c)
    case (SubscribeOp T h)
    have "map (\<lambda>k. subscriberId s + of_nat k) [1..<Suc (Suc (subscribes cs))] =
          (subscriberId s + 1) # map (\<lambda>k. subscriberId s + of_nat k) (map Suc [1..<Suc (subscribes cs)])"
      by (simp add: map_Suc_upt upt_conv_Cons del: upt_Suc)
    also have "\<dots> = (subscriberId s + 1) #
          map (\<lambda>k. (subscriberId s + 1) + of_nat k) [1..<Suc (subscribes cs)]"
      by (simp add: ac_simps del: upt_Suc)
    finally show ?thesis using SubscribeOp Cons.IH [of "snd (Subscribe T h s)"]
      by (simp add: split_beta Let_def Subscribe_fst subscriberId_Subscribe del: upt_Suc)
  next
    case (UnsubscribeOp T i)
    with Cons.IH [of "snd (Unsubscribe T i s)"] show ?thesis
      by (simp add: split_beta Let_def subscriberId_Unsubscribe del: upt_Suc)
  next
    case (PublishOp T e)
    with Cons.IH [of s] show ?thesis
      by (simp add: split_beta Let_def Publish_frame del: upt_Suc)
  next
    case (PublishAsyncOp T e)
    with Cons.IH [of s] show ?thesis
      by (simp add: split_beta Let_def PublishAsync_frame del: upt_Suc)
  qed
qed

lemma run_issued:
  "entry_id ` set (slice_at (snd (run cs s)) k) \<subseteq>
     entry_id ` set (slice_at s k) \<union> set (issued_under k (fst (run cs s)))"
proof (induction cs arbitrary: s)
  case Nil
  then show ?case by simp
next
  case (Cons c cs)
  show ?case
  proof (cases c)
    case (SubscribeOp T h)
    with Cons.IH [of "snd (Subscribe T h s)"] show ?thesis
      by (auto simp: split_beta Let_def Subscribe_fst slice_at_Subscribe split: if_splits)
  next
    case (UnsubscribeOp T i)
    with Cons.IH [of "snd (Unsubscribe T i s)"] set_slice_at_Unsubscribe [of T i s k]
    show ?thesis
      by (auto simp: split_beta Let_def)
  next
    case (PublishOp T e)
    with Cons.IH [of s] show ?thesis
      by (simp add: split_beta Let_def Publish_frame)
  next
    case (PublishAsyncOp T e)
    with Cons.IH [of s] show ?thesis
      by (simp add: split_beta Let_def PublishAsync_frame)
  qed
qed

lemma of_nat_less_word:
  "a < b \<Longrightarrow> b < 2 ^ 64 \<Longrightarrow> (of_nat a :: 64 word) < of_nat b"
  by (simp add: word_less_nat_alt unat_of_nat)

lemma sorted_ids_upto:
  assumes "n < 2 ^ 64"
  shows "sorted_wrt (<) (map (\<lambda>k. of_nat k :: 64 word) [1..<Suc n])"
proof -
  have "sorted_wrt (\<lambda>a b. (of_nat a :: 64 word) < of_nat b) [1..<Suc n]"
  proof (rule sorted_wrt_mono_rel [of _ "(<)"])
    show "sorted_wrt (<) [1..<Suc n]" by (rule sorted_wrt_upt)
  next
    fix a b assume "a \<in> set [1..<Suc n]" "b \<in> set [1..<Suc n]" "a < b"
    with assms show "(of_nat a :: 64 word) < of_nat b"
      by (intro of_nat_less_word) auto
  qed
  then show ?thesis by (simp add: sorted_wrt_map del: upt_Suc)
qed

lemma strict_sorted_distinct: "sorted_wrt (<) (xs :: 64 word list) \<Longrightarrow> distinct xs"
  by (induction xs) auto

lemma subscribes_replicate: "subscribes (replicate n (SubscribeOp T h)) = n"
  by (induction n) auto

lemma ids_of_replicate:
  "ids_of (fst (run (replicate n (SubscribeOp T h)) init)) = map of_nat [1..<Suc n]"
  by (simp add: run_ids init_def subscribes_replicate del: upt_Suc)

lemma wrapped_ids_not_sorted:
  assumes "n = 2 ^ 64"
  shows "\<not> sorted_wrt (<) (map (of_nat :: nat \<Rightarrow> 64 word) [1..<Suc n])"
proof
  let ?ids = "map (of_nat :: nat \<Rightarrow> 64 word) [1..<Suc n]"
  assume "sorted_wrt (<) ?ids"
  moreover have "0 < n - 1" "n - 1 < length ?ids" using assms by simp_all
  ultimately have "?ids ! 0 < ?ids ! (n - 1)"
    unfolding sorted_wrt_iff_nth_less by blast
  moreover have "?ids ! 0 = 1" using assms by (simp add: nth_upt del: upt_Suc)
  moreover have "?ids ! (n - 1) = of_nat n"
    using assms by (simp add: nth_upt del: upt_Suc)
  moreover have "(of_nat n :: 64 word) = 0" using assms by simp
  ultimately show False by simp
qed

text \<open>
  C6, as the code has it. In a run from the initial state that holds fewer than \<open>2^64\<close> calls
  of \<^verbatim>\<open>Subscribe\<close>, over any mix of event types and with any other calls in between, the ids
  returned are strictly increasing in call order (as unsigned 64-bit numbers), so none is
  returned twice.
\<close>

theorem ids_increase_before_wrap:
  assumes "subscribes cs < 2 ^ 64"
  shows "sorted_wrt (<) (ids_of (fst (run cs init))) \<and> distinct (ids_of (fst (run cs init)))"
proof -
  have "ids_of (fst (run cs init)) = map (\<lambda>k. of_nat k) [1..<Suc (subscribes cs)]"
    by (simp add: run_ids init_def del: upt_Suc)
  with sorted_ids_upto [OF assms] have "sorted_wrt (<) (ids_of (fst (run cs init)))" by simp
  then show ?thesis by (simp add: strict_sorted_distinct)
qed

theorem ids_increase_before_wrap_witness:
  "(let T = Concrete ''Ping''; U = Concrete ''Order'';
        cs = [SubscribeOp T (Impl T ''h1''), SubscribeOp U (Impl U ''h2''),
              UnsubscribeOp T 1, PublishOp U (Event (Some U) ''Order{}''),
              SubscribeOp T (Impl T ''h1'')]
    in subscribes cs < 2 ^ 64 \<and> ids_of (fst (run cs init)) = [1, 2, 3] \<and>
       sorted_wrt (<) (ids_of (fst (run cs init))) \<and> distinct (ids_of (fst (run cs init))))"
  using ids_increase_before_wrap
          [of "[SubscribeOp (Concrete ''Ping'') (Impl (Concrete ''Ping'') ''h1''),
                SubscribeOp (Concrete ''Order'') (Impl (Concrete ''Order'') ''h2''),
                UnsubscribeOp (Concrete ''Ping'') 1,
                PublishOp (Concrete ''Order'') (Event (Some (Concrete ''Order'')) ''Order{}''),
                SubscribeOp (Concrete ''Ping'') (Impl (Concrete ''Ping'') ''h1'')]"]
  by (simp add: Let_def split_beta Subscribe_def generateHandlerId_def slice_at_def
      Unsubscribe_def Publish_def reflect_TypeOf_def init_def)

text \<open>
  C6, as the claim has it, for every sequence of calls: the counter is a \<^verbatim>\<open>uint64\<close> and
  \<^verbatim>\<open>atomic.AddUint64\<close> wraps, so the \<open>2^64\<close>-th call of \<^verbatim>\<open>Subscribe\<close> returns 0, after the
  first returned 1.
\<close>

theorem ids_wrap_after_2_64:
  "\<not> (sorted_wrt (<) (ids_of (fst (run (replicate (2 ^ 64) (SubscribeOp (Concrete ''Ping'') NilHandler)) init))) \<and>
      distinct (ids_of (fst (run (replicate (2 ^ 64) (SubscribeOp (Concrete ''Ping'') NilHandler)) init))))"
  unfolding ids_of_replicate using wrapped_ids_not_sorted [of "2 ^ 64"] by blast

subsection \<open>Removing a subscription\<close>

lemma fresh_id:
  assumes "ids_bounded s" and "unat (subscriberId s) < 2 ^ 64 - 1"
  shows "subscriberId s + 1 \<notin> entry_id ` set (slice_at s k)"
proof
  assume "subscriberId s + 1 \<in> entry_id ` set (slice_at s k)"
  then obtain x where "x \<in> set (slice_at s k)" "entry_id x = subscriberId s + 1" by auto
  moreover from assms(1) have "\<forall>x\<in>set (slice_at s k). unat (entry_id x) \<le> unat (subscriberId s)"
    unfolding ids_bounded_def by blast
  ultimately have "unat (subscriberId s + 1) \<le> unat (subscriberId s)"
    by auto
  with assms(2) show False by (simp add: unat_Suc_word)
qed

lemma Unsubscribe_slice:
  assumes "i \<in> entry_id ` set (slice_at s (typeof_new T))"
  shows "\<exists>pre y post. slice_at s (typeof_new T) = pre @ y # post \<and> entry_id y = i \<and>
           i \<notin> entry_id ` set pre \<and>
           slice_at (snd (Unsubscribe T i s)) (typeof_new T) = pre @ post"
proof -
  from assms obtain hs where hs: "handlers s (typeof_new T) = Some hs" "slice_at s (typeof_new T) = hs"
    by (cases "handlers s (typeof_new T)") (auto simp: slice_at_def)
  with assms first_with_id [of i hs] obtain pre y post
    where d: "hs = pre @ y # post" "entry_id y = i" "i \<notin> entry_id ` set pre" by blast
  from hs d Unsubscribe_present [of s T pre y post i]
  have "Unsubscribe T i s = (True, s\<lparr>handlers := (handlers s)(typeof_new T \<mapsto> pre @ post)\<rparr>)"
    by simp
  then have "slice_at (snd (Unsubscribe T i s)) (typeof_new T) = pre @ post"
    by (simp add: slice_at_def)
  with hs d have "slice_at s (typeof_new T) = pre @ y # post \<and> entry_id y = i \<and>
           i \<notin> entry_id ` set pre \<and>
           slice_at (snd (Unsubscribe T i s)) (typeof_new T) = pre @ post" by simp
  then show ?thesis by (intro exI)
qed

lemma ids_distinct_Unsubscribe:
  assumes "ids_distinct s"
  shows "ids_distinct (snd (Unsubscribe T i s))"
  unfolding ids_distinct_def
proof
  fix k
  from assms have dk: "distinct (map entry_id (slice_at s k))" by (simp add: ids_distinct_def)
  show "distinct (map entry_id (slice_at (snd (Unsubscribe T i s)) k))"
  proof (cases "k = typeof_new T \<and> i \<in> entry_id ` set (slice_at s (typeof_new T))")
    case True
    with Unsubscribe_slice [of i s T] obtain pre y post
      where "slice_at s k = pre @ y # post" "slice_at (snd (Unsubscribe T i s)) k = pre @ post"
      by auto
    with dk show ?thesis by auto
  next
    case False
    with dk show ?thesis
      by (auto simp: slice_at_Unsubscribe_other Unsubscribe_absent)
  qed
qed

lemma ids_distinct_Subscribe:
  assumes "ids_distinct s" and "ids_bounded s" and "unat (subscriberId s) < 2 ^ 64 - 1"
  shows "ids_distinct (snd (Subscribe T h s))"
  using assms(1) fresh_id [OF assms(2,3)]
  by (auto simp: ids_distinct_def slice_at_Subscribe)

lemma ids_distinct_init: "ids_distinct init"
  by (simp add: ids_distinct_def init_def slice_at_def)

lemma run_distinct:
  "ids_distinct s \<Longrightarrow> ids_bounded s \<Longrightarrow> unat (subscriberId s) + subscribes cs < 2 ^ 64 \<Longrightarrow>
   ids_distinct (snd (run cs s))"
proof (induction cs arbitrary: s)
  case Nil
  then show ?case by simp
next
  case (Cons c cs)
  show ?case
  proof (cases c)
    case (SubscribeOp T h)
    from Cons.prems SubscribeOp have lt: "unat (subscriberId s) < 2 ^ 64 - 1" by simp
    let ?s1 = "snd (Subscribe T h s)"
    have d: "ids_distinct ?s1" using Cons.prems(1,2) lt by (rule ids_distinct_Subscribe)
    have b: "ids_bounded ?s1" using Cons.prems(2) lt by (rule ids_bounded_Subscribe)
    have "unat (subscriberId ?s1) = Suc (unat (subscriberId s))"
      using lt by (simp add: subscriberId_Subscribe unat_Suc_word)
    with Cons.prems SubscribeOp have "unat (subscriberId ?s1) + subscribes cs < 2 ^ 64" by simp
    from Cons.IH [OF d b this] SubscribeOp show ?thesis
      by (simp add: split_beta Let_def)
  next
    case (UnsubscribeOp T i)
    let ?s1 = "snd (Unsubscribe T i s)"
    have d: "ids_distinct ?s1" using Cons.prems(1) by (rule ids_distinct_Unsubscribe)
    have b: "ids_bounded ?s1" using Cons.prems(2) by (rule ids_bounded_Unsubscribe)
    from Cons.prems UnsubscribeOp have "unat (subscriberId ?s1) + subscribes cs < 2 ^ 64"
      by (simp add: subscriberId_Unsubscribe)
    from Cons.IH [OF d b this] UnsubscribeOp show ?thesis
      by (simp add: split_beta Let_def)
  next
    case (PublishOp T e)
    with Cons show ?thesis by (simp add: split_beta Let_def Publish_frame)
  next
    case (PublishAsyncOp T e)
    with Cons show ?thesis by (simp add: split_beta Let_def PublishAsync_frame)
  qed
qed

lemma Unsubscribe_keeps_other_id:
  assumes "j \<in> entry_id ` set (slice_at s k)" and "\<not> (typeof_new T = k \<and> i = j)"
  shows "j \<in> entry_id ` set (slice_at (snd (Unsubscribe T i s)) k)"
proof (cases "k = typeof_new T \<and> i \<in> entry_id ` set (slice_at s (typeof_new T))")
  case True
  with Unsubscribe_slice [of i s T] obtain pre y post
    where "slice_at s k = pre @ y # post" "entry_id y = i"
      "slice_at (snd (Unsubscribe T i s)) k = pre @ post"
    by auto
  with assms True show ?thesis by auto
next
  case False
  with assms(1) show ?thesis
    by (auto simp: slice_at_Unsubscribe_other Unsubscribe_absent)
qed

lemma run_keeps_id:
  "j \<in> entry_id ` set (slice_at s k) \<Longrightarrow> \<not> unsubscribed k j cs \<Longrightarrow>
   j \<in> entry_id ` set (slice_at (snd (run cs s)) k)"
proof (induction cs arbitrary: s)
  case Nil
  then show ?case by simp
next
  case (Cons c cs)
  show ?case
  proof (cases c)
    case (SubscribeOp T h)
    from Cons.prems(1) have "j \<in> entry_id ` set (slice_at (snd (Subscribe T h s)) k)"
      by (auto simp: slice_at_Subscribe)
    from Cons.IH [OF this] Cons.prems(2) SubscribeOp show ?thesis
      by (simp add: split_beta Let_def)
  next
    case (UnsubscribeOp T i)
    with Cons.prems(2) have "\<not> (typeof_new T = k \<and> i = j)" by simp
    with Cons.prems(1) have "j \<in> entry_id ` set (slice_at (snd (Unsubscribe T i s)) k)"
      by (rule Unsubscribe_keeps_other_id)
    from Cons.IH [OF this] Cons.prems(2) UnsubscribeOp show ?thesis
      by (simp add: split_beta Let_def)
  next
    case (PublishOp T e)
    with Cons show ?thesis by (simp add: split_beta Let_def Publish_frame)
  next
    case (PublishAsyncOp T e)
    with Cons show ?thesis by (simp add: split_beta Let_def PublishAsync_frame)
  qed
qed

lemma Unsubscribe_removes_distinct:
  assumes "ids_distinct s"
  shows "j \<notin> entry_id ` set (slice_at (snd (Unsubscribe T j s)) (typeof_new T))"
proof (cases "j \<in> entry_id ` set (slice_at s (typeof_new T))")
  case True
  with Unsubscribe_slice [of j s T] obtain pre y post
    where d: "slice_at s (typeof_new T) = pre @ y # post" "entry_id y = j"
      "slice_at (snd (Unsubscribe T j s)) (typeof_new T) = pre @ post"
    by auto
  from assms have "distinct (map entry_id (slice_at s (typeof_new T)))"
    by (simp add: ids_distinct_def)
  with d show ?thesis by auto
next
  case False
  then show ?thesis by (simp add: Unsubscribe_absent)
qed

lemma run_never_reissues:
  "j \<notin> entry_id ` set (slice_at s k) \<Longrightarrow> unat j \<le> unat (subscriberId s) \<Longrightarrow>
   unat (subscriberId s) + subscribes cs < 2 ^ 64 \<Longrightarrow>
   j \<notin> entry_id ` set (slice_at (snd (run cs s)) k)"
proof (induction cs arbitrary: s)
  case Nil
  then show ?case by simp
next
  case (Cons c cs)
  show ?case
  proof (cases c)
    case (SubscribeOp T h)
    from Cons.prems SubscribeOp have lt: "unat (subscriberId s) < 2 ^ 64 - 1" by simp
    let ?s1 = "snd (Subscribe T h s)"
    have n: "unat (subscriberId ?s1) = Suc (unat (subscriberId s))"
      using lt by (simp add: subscriberId_Subscribe unat_Suc_word)
    with Cons.prems(2) have "j \<noteq> subscriberId s + 1"
      by (auto simp: subscriberId_Subscribe)
    with Cons.prems(1) have a: "j \<notin> entry_id ` set (slice_at ?s1 k)"
      by (auto simp: slice_at_Subscribe)
    from n Cons.prems(2) have b: "unat j \<le> unat (subscriberId ?s1)" by simp
    from n Cons.prems(3) SubscribeOp have "unat (subscriberId ?s1) + subscribes cs < 2 ^ 64" by simp
    from Cons.IH [OF a b this] SubscribeOp show ?thesis
      by (simp add: split_beta Let_def)
  next
    case (UnsubscribeOp T i)
    let ?s1 = "snd (Unsubscribe T i s)"
    from Cons.prems(1) set_slice_at_Unsubscribe [of T i s k]
    have a: "j \<notin> entry_id ` set (slice_at ?s1 k)" by auto
    from Cons.prems(2) have b: "unat j \<le> unat (subscriberId ?s1)"
      by (simp add: subscriberId_Unsubscribe)
    from Cons.prems(3) UnsubscribeOp have "unat (subscriberId ?s1) + subscribes cs < 2 ^ 64"
      by (simp add: subscriberId_Unsubscribe)
    from Cons.IH [OF a b this] UnsubscribeOp show ?thesis
      by (simp add: split_beta Let_def)
  next
    case (PublishOp T e)
    with Cons show ?thesis by (simp add: split_beta Let_def Publish_frame)
  next
    case (PublishAsyncOp T e)
    with Cons show ?thesis by (simp add: split_beta Let_def PublishAsync_frame)
  qed
qed

lemma Subscribe_Unsubscribe_once:
  assumes n: "subscribes cs0 + subscribes cs1 + subscribes cs2 < 2 ^ 64 - 1"
      and s: "s = snd (run cs0 init)"
      and u: "\<not> unsubscribed (typeof_new T) (fst (Subscribe T h s)) cs1"
  shows "(let (j, s1) = Subscribe T h s;
              s2 = snd (run cs1 s1);
              (r1, s3) = Unsubscribe T j s2;
              s4 = snd (run cs2 s3);
              (r2, s5) = Unsubscribe T j s4
          in r1 \<and> \<not> r2)"
proof -
  let ?K = "typeof_new T"
  let ?j = "subscriberId s + 1"
  let ?s1 = "snd (Subscribe T h s)"
  let ?s2 = "snd (run cs1 ?s1)"
  let ?s3 = "snd (Unsubscribe T ?j ?s2)"
  let ?s4 = "snd (run cs2 ?s3)"
  from n have "unat (subscriberId init) + subscribes cs0 < 2 ^ 64" by (simp add: init_def)
  from run_bounded [OF ids_bounded_init this] run_distinct [OF ids_distinct_init ids_bounded_init this]
  have b0: "ids_bounded s" and c0: "unat (subscriberId s) = subscribes cs0" and d0: "ids_distinct s"
    by (simp_all add: s init_def)
  from c0 n have lt: "unat (subscriberId s) < 2 ^ 64 - 1" by simp
  have b1: "ids_bounded ?s1" using b0 lt by (rule ids_bounded_Subscribe)
  have d1: "ids_distinct ?s1" using d0 b0 lt by (rule ids_distinct_Subscribe)
  have c1: "unat (subscriberId ?s1) = Suc (subscribes cs0)"
    using lt c0 by (simp add: subscriberId_Subscribe unat_Suc_word)
  have uj: "unat ?j = Suc (subscribes cs0)" using lt c0 by (simp add: unat_Suc_word)
  have in1: "?j \<in> entry_id ` set (slice_at ?s1 ?K)" by (simp add: slice_at_Subscribe)
  from u have "\<not> unsubscribed ?K ?j cs1" by (simp add: Subscribe_fst)
  with in1 have in2: "?j \<in> entry_id ` set (slice_at ?s2 ?K)" by (rule run_keeps_id)
  from c1 n have n1: "unat (subscriberId ?s1) + subscribes cs1 < 2 ^ 64" by simp
  from run_bounded [OF b1 n1] run_distinct [OF d1 b1 n1]
  have b2: "ids_bounded ?s2" and c2: "unat (subscriberId ?s2) = Suc (subscribes cs0) + subscribes cs1"
    and d2: "ids_distinct ?s2"
    by (simp_all add: c1)
  from in2 have r1: "fst (Unsubscribe T ?j ?s2)" by (simp add: Unsubscribe_result)
  from d2 have out3: "?j \<notin> entry_id ` set (slice_at ?s3 ?K)" by (rule Unsubscribe_removes_distinct)
  have c3: "unat (subscriberId ?s3) = Suc (subscribes cs0) + subscribes cs1"
    by (simp add: subscriberId_Unsubscribe c2)
  with uj have le3: "unat ?j \<le> unat (subscriberId ?s3)" by simp
  from c3 n have n3: "unat (subscriberId ?s3) + subscribes cs2 < 2 ^ 64" by simp
  from out3 le3 n3 have "?j \<notin> entry_id ` set (slice_at ?s4 ?K)" by (rule run_never_reissues)
  then have r2: "\<not> fst (Unsubscribe T ?j ?s4)" by (simp add: Unsubscribe_result)
  from r1 r2 show ?thesis by (simp add: split_beta Let_def Subscribe_fst)
qed

text \<open>
  C7, as the code has it. \<^verbatim>\<open>Unsubscribe[T](i)\<close> returns true exactly when the slice under
  the key of \<open>T\<close> holds an entry with id \<open>i\<close>. It then removes the first such entry and
  nothing else: the slice \<open>pre @ x # post\<close>, with \<open>x\<close> the first entry carrying \<open>i\<close>,
  becomes \<open>pre @ post\<close>, the other keys and the counter stay. In a run from the initial
  state in which the counter does not wrap (fewer than \<open>2^64\<close> calls of \<^verbatim>\<open>Subscribe\<close> in
  all, so that no id is reused and the entry is the only one with its id): once
  \<^verbatim>\<open>Subscribe[T]\<close> has returned \<open>j\<close>, and whatever calls follow, the first
  \<^verbatim>\<open>Unsubscribe\<close> of \<open>j\<close> under the key of \<open>T\<close> returns true, and, whatever calls
  follow that, another \<^verbatim>\<open>Unsubscribe[T](j)\<close> returns false.
\<close>

theorem Unsubscribe_removes_by_id:
  "(fst (Unsubscribe T i s) \<longleftrightarrow> i \<in> entry_id ` set (slice_at s (typeof_new T))) \<and>
   (i \<in> entry_id ` set (slice_at s (typeof_new T)) \<longrightarrow>
      (\<exists>pre x post. handlers s (typeof_new T) = Some (pre @ x # post) \<and>
          entry_id x = i \<and> i \<notin> entry_id ` set pre \<and>
          Unsubscribe T i s = (True, s\<lparr>handlers := (handlers s)(typeof_new T \<mapsto> pre @ post)\<rparr>))) \<and>
   (\<forall>cs0 cs1 cs2 h.
      s = snd (run cs0 init) \<and> subscribes cs0 + subscribes cs1 + subscribes cs2 < 2 ^ 64 - 1 \<and>
      \<not> unsubscribed (typeof_new T) (fst (Subscribe T h s)) cs1 \<longrightarrow>
      (let (j, s1) = Subscribe T h s;
           s2 = snd (run cs1 s1);
           (r1, s3) = Unsubscribe T j s2;
           s4 = snd (run cs2 s3);
           (r2, s5) = Unsubscribe T j s4
       in r1 \<and> \<not> r2))"
proof (intro conjI allI impI)
  show "fst (Unsubscribe T i s) \<longleftrightarrow> i \<in> entry_id ` set (slice_at s (typeof_new T))"
    by (rule Unsubscribe_result)
next
  assume in_slice: "i \<in> entry_id ` set (slice_at s (typeof_new T))"
  then obtain hs where hs: "handlers s (typeof_new T) = Some hs" "slice_at s (typeof_new T) = hs"
    by (cases "handlers s (typeof_new T)") (auto simp: slice_at_def)
  with in_slice first_with_id [of i hs] obtain pre y post
    where d: "hs = pre @ y # post" "entry_id y = i" "i \<notin> entry_id ` set pre" by blast
  with hs Unsubscribe_present [of s T pre y post i]
  have "Unsubscribe T i s = (True, s\<lparr>handlers := (handlers s)(typeof_new T \<mapsto> pre @ post)\<rparr>)"
    by simp
  with hs d have "handlers s (typeof_new T) = Some (pre @ y # post) \<and>
          entry_id y = i \<and> i \<notin> entry_id ` set pre \<and>
          Unsubscribe T i s = (True, s\<lparr>handlers := (handlers s)(typeof_new T \<mapsto> pre @ post)\<rparr>)"
    by simp
  then show "\<exists>pre x post. handlers s (typeof_new T) = Some (pre @ x # post) \<and>
          entry_id x = i \<and> i \<notin> entry_id ` set pre \<and>
          Unsubscribe T i s = (True, s\<lparr>handlers := (handlers s)(typeof_new T \<mapsto> pre @ post)\<rparr>)"
    by (intro exI)
next
  fix cs0 cs1 cs2 h
  assume a: "s = snd (run cs0 init) \<and> subscribes cs0 + subscribes cs1 + subscribes cs2 < 2 ^ 64 - 1 \<and>
      \<not> unsubscribed (typeof_new T) (fst (Subscribe T h s)) cs1"
  then have n: "subscribes cs0 + subscribes cs1 + subscribes cs2 < 2 ^ 64 - 1"
    and s: "s = snd (run cs0 init)"
    and u: "\<not> unsubscribed (typeof_new T) (fst (Subscribe T h s)) cs1"
    by blast+
  show "(let (j, s1) = Subscribe T h s;
           s2 = snd (run cs1 s1);
           (r1, s3) = Unsubscribe T j s2;
           s4 = snd (run cs2 s3);
           (r2, s5) = Unsubscribe T j s4
       in r1 \<and> \<not> r2)"
    by (rule Subscribe_Unsubscribe_once [OF n s u])
qed

theorem Unsubscribe_removes_by_id_witness:
  "(let T = Concrete ''Ping''; U = Concrete ''Order'';
        cs0 = [SubscribeOp T (Impl T ''h1''), SubscribeOp T (Impl T ''h2''),
               SubscribeOp T (Impl T ''h3'')];
        cs1 = [SubscribeOp U (Impl U ''h5''), UnsubscribeOp T 1, UnsubscribeOp U 4,
               PublishOp T (Event (Some T) ''Ping{}'')];
        cs2 = [SubscribeOp T (Impl T ''h6'')];
        s = snd (run cs0 init);
        (r, s') = Unsubscribe T 2 s;
        (j, s1) = Subscribe T (Impl T ''h4'') s;
        s2 = snd (run cs1 s1);
        (r1, s3) = Unsubscribe T j s2;
        s4 = snd (run cs2 s3);
        (r2, s5) = Unsubscribe T j s4
    in subscribes cs0 + subscribes cs1 + subscribes cs2 < 2 ^ 64 - 1 \<and>
       \<not> unsubscribed (typeof_new T) j cs1 \<and>
       slice_at s (typeof_new T) =
         [\<lparr>entry_id = 1, entry_handler = Impl T ''h1''\<rparr>,
          \<lparr>entry_id = 2, entry_handler = Impl T ''h2''\<rparr>,
          \<lparr>entry_id = 3, entry_handler = Impl T ''h3''\<rparr>] \<and>
       r \<and>
       slice_at s' (typeof_new T) =
         [\<lparr>entry_id = 1, entry_handler = Impl T ''h1''\<rparr>,
          \<lparr>entry_id = 3, entry_handler = Impl T ''h3''\<rparr>] \<and>
       \<not> fst (Unsubscribe T 7 s) \<and>
       j = 4 \<and> r1 \<and> \<not> r2)"
proof -
  let ?T = "Concrete ''Ping''"
  let ?U = "Concrete ''Order''"
  let ?cs0 = "[SubscribeOp ?T (Impl ?T ''h1''), SubscribeOp ?T (Impl ?T ''h2''),
              SubscribeOp ?T (Impl ?T ''h3'')]"
  let ?cs1 = "[SubscribeOp ?U (Impl ?U ''h5''), UnsubscribeOp ?T 1, UnsubscribeOp ?U 4,
               PublishOp ?T (Event (Some ?T) ''Ping{}'')]"
  let ?cs2 = "[SubscribeOp ?T (Impl ?T ''h6'')]"
  let ?s = "snd (run ?cs0 init)"
  have n: "subscribes ?cs0 + subscribes ?cs1 + subscribes ?cs2 < 2 ^ 64 - 1" by simp
  have sl: "slice_at ?s (typeof_new ?T) =
         [\<lparr>entry_id = 1, entry_handler = Impl ?T ''h1''\<rparr>,
          \<lparr>entry_id = 2, entry_handler = Impl ?T ''h2''\<rparr>,
          \<lparr>entry_id = 3, entry_handler = Impl ?T ''h3''\<rparr>]"
    by (simp add: split_beta Let_def Subscribe_def generateHandlerId_def slice_at_def init_def)
  have e: "fst (Subscribe ?T (Impl ?T ''h4'') ?s) = 4"
    by (simp add: split_beta Let_def Subscribe_def generateHandlerId_def slice_at_def init_def)
  have nu: "\<not> unsubscribed (typeof_new ?T) (fst (Subscribe ?T (Impl ?T ''h4'') ?s)) ?cs1"
    unfolding e by simp
  note th2 = Unsubscribe_removes_by_id [of ?T 2 ?s]
  note th7 = Unsubscribe_removes_by_id [of ?T 7 ?s]
  from th2 sl have a: "fst (Unsubscribe ?T 2 ?s)" by simp
  from th7 sl have b: "\<not> fst (Unsubscribe ?T 7 ?s)" by simp
  from th2 have "\<forall>cs0 cs1 cs2 h.
      ?s = snd (run cs0 init) \<and> subscribes cs0 + subscribes cs1 + subscribes cs2 < 2 ^ 64 - 1 \<and>
      \<not> unsubscribed (typeof_new ?T) (fst (Subscribe ?T h ?s)) cs1 \<longrightarrow>
      (let (j, s1) = Subscribe ?T h ?s;
           s2 = snd (run cs1 s1);
           (r1, s3) = Unsubscribe ?T j s2;
           s4 = snd (run cs2 s3);
           (r2, s5) = Unsubscribe ?T j s4
       in r1 \<and> \<not> r2)" by (elim conjE)
  with n nu have c: "(let (j, s1) = Subscribe ?T (Impl ?T ''h4'') ?s;
           s2 = snd (run ?cs1 s1);
           (r1, s3) = Unsubscribe ?T j s2;
           s4 = snd (run ?cs2 s3);
           (r2, s5) = Unsubscribe ?T j s4
       in r1 \<and> \<not> r2)" by blast
  have d: "slice_at (snd (Unsubscribe ?T 2 ?s)) (typeof_new ?T) =
         [\<lparr>entry_id = 1, entry_handler = Impl ?T ''h1''\<rparr>,
          \<lparr>entry_id = 3, entry_handler = Impl ?T ''h3''\<rparr>]"
    by (simp add: split_beta Let_def Subscribe_def generateHandlerId_def slice_at_def init_def
        Unsubscribe_def)
  from n sl a b d e nu c [unfolded Let_def split_beta] show ?thesis
    unfolding Let_def split_beta by (intro conjI) simp_all
qed

text \<open>
  The path of \<^verbatim>\<open>Unsubscribe\<close> that finds nothing: \<^verbatim>\<open>Unsubscribe[T](i)\<close> returns false and
  leaves the table and the counter as they were whenever no entry under the key of \<open>T\<close>
  carries \<open>i\<close>; in a run from the initial state that is so whenever no \<^verbatim>\<open>Subscribe\<close> call
  that filed its entry under the key of \<open>T\<close> has returned \<open>i\<close>. For a non-interface \<open>T\<close>
  those are the calls \<^verbatim>\<open>Subscribe[T]\<close>.
\<close>

theorem Unsubscribe_unknown_id:
  "(i \<notin> entry_id ` set (slice_at s (typeof_new T)) \<longrightarrow> Unsubscribe T i s = (False, s)) \<and>
   (s = snd (run cs init) \<and> i \<notin> set (issued_under (typeof_new T) (fst (run cs init))) \<longrightarrow>
      Unsubscribe T i s = (False, s))"
proof (intro conjI impI)
  assume "i \<notin> entry_id ` set (slice_at s (typeof_new T))"
  then show "Unsubscribe T i s = (False, s)" by (rule Unsubscribe_absent)
next
  assume a: "s = snd (run cs init) \<and> i \<notin> set (issued_under (typeof_new T) (fst (run cs init)))"
  have "slice_at init (typeof_new T) = []" by (simp add: slice_at_def init_def)
  with run_issued [of cs init "typeof_new T"] a
  have "i \<notin> entry_id ` set (slice_at s (typeof_new T))" by auto
  then show "Unsubscribe T i s = (False, s)" by (rule Unsubscribe_absent)
qed

theorem Unsubscribe_unknown_id_witness:
  "(let T = Concrete ''Ping''; U = Concrete ''Order'';
        cs = [SubscribeOp T (Impl T ''h1''), SubscribeOp U (Impl U ''h2'')];
        log = fst (run cs init); s = snd (run cs init)
    in issued_under (typeof_new T) log = [1] \<and> issued_under (typeof_new U) log = [2] \<and>
       2 \<notin> entry_id ` set (slice_at s (typeof_new T)) \<and>
       Unsubscribe T 2 s = (False, s) \<and> fst (Unsubscribe U 2 s))"
proof -
  let ?T = "Concrete ''Ping''"
  let ?U = "Concrete ''Order''"
  let ?cs = "[SubscribeOp ?T (Impl ?T ''h1''), SubscribeOp ?U (Impl ?U ''h2'')]"
  let ?s = "snd (run ?cs init)"
  have i1: "issued_under (typeof_new ?T) (fst (run ?cs init)) = [1]"
    by (simp add: split_beta Let_def Subscribe_def generateHandlerId_def slice_at_def init_def)
  have i2: "issued_under (typeof_new ?U) (fst (run ?cs init)) = [2]"
    by (simp add: split_beta Let_def Subscribe_def generateHandlerId_def slice_at_def init_def)
  have sl: "2 \<notin> entry_id ` set (slice_at ?s (typeof_new ?T))"
    by (simp add: split_beta Let_def Subscribe_def generateHandlerId_def slice_at_def init_def)
  from Unsubscribe_unknown_id [of 2 ?s ?T ?cs] i1
  have u: "Unsubscribe ?T 2 ?s = (False, ?s)" by simp
  have v: "fst (Unsubscribe ?U 2 ?s)"
    by (simp add: split_beta Let_def Subscribe_def generateHandlerId_def slice_at_def init_def
        Unsubscribe_def)
  from i1 i2 sl u v show ?thesis by (simp add: Let_def)
qed

text \<open>
  C8. The claim: \<^verbatim>\<open>Unsubscribe[T](i)\<close> for an id never issued for \<open>T\<close> returns false and
  leaves the registry as it was. The code at two interface types: \<^verbatim>\<open>Subscribe\<close> and
  \<^verbatim>\<open>Unsubscribe\<close> file every interface type under \<^verbatim>\<open>reflect.TypeOf(*new(T))\<close>, the nil type,
  so the id 1 that \<^verbatim>\<open>Subscribe[io.Reader]\<close> returned, never issued for \<^verbatim>\<open>io.Writer\<close>, is found
  by \<^verbatim>\<open>Unsubscribe[io.Writer](1)\<close>, which returns true and removes the handler of
  \<^verbatim>\<open>io.Reader\<close>.
\<close>

theorem Unsubscribe_removes_for_other_interface_type:
  "(let R = Interface ''io.Reader''; W = Interface ''io.Writer'';
        cs = [SubscribeOp R (Impl R ''h'')];
        log = fst (run cs init); s1 = snd (run cs init);
        (removed, s2) = Unsubscribe W 1 s1
    in ids_of log = [1] \<and> typeof_new R = typeof_new W \<and>
       slice_at s1 (typeof_new R) = [\<lparr>entry_id = 1, entry_handler = Impl R ''h''\<rparr>] \<and>
       removed \<and> slice_at s2 (typeof_new R) = [])"
  by (simp add: Subscribe_def Unsubscribe_def generateHandlerId_def slice_at_def init_def Let_def)

subsection \<open>Subscribing one handler several times\<close>

lemma upt_shift: "map f [1..<Suc (Suc n)] = f 1 # map (\<lambda>k. f (Suc k)) [1..<Suc n]"
proof -
  have "[1..<Suc (Suc n)] = 1 # map Suc [1..<Suc n]"
    by (simp add: map_Suc_upt upt_conv_Cons del: upt_Suc)
  then show ?thesis by (simp add: comp_def del: upt_Suc)
qed

lemma Subscribe_times_ids:
  "fst (Subscribe_times n T h s) = map (\<lambda>k. subscriberId s + of_nat k) [1..<Suc n]"
proof (induction n arbitrary: s)
  case 0
  then show ?case by simp
next
  case (Suc n)
  show ?case
    unfolding upt_shift
    by (simp add: split_beta Let_def Suc.IH Subscribe_fst subscriberId_Subscribe ac_simps
        del: upt_Suc)
qed

lemma Subscribe_times_slice:
  "slice_at (snd (Subscribe_times n T h s)) k =
     (if k = typeof_new T
      then slice_at s k @
           map (\<lambda>j. \<lparr>entry_id = subscriberId s + of_nat j, entry_handler = h\<rparr>) [1..<Suc n]
      else slice_at s k)"
proof (induction n arbitrary: s)
  case 0
  then show ?case by simp
next
  case (Suc n)
  show ?case
    unfolding upt_shift
    by (simp add: split_beta Let_def Suc.IH slice_at_Subscribe subscriberId_Subscribe ac_simps
        del: upt_Suc)
qed

lemma dom_Subscribe: "dom (handlers (snd (Subscribe T h s))) = insert (typeof_new T) (dom (handlers s))"
  by (simp add: Subscribe_snd)

lemma dom_Subscribe_times: "dom (handlers s) \<subseteq> dom (handlers (snd (Subscribe_times n T h s)))"
proof (induction n arbitrary: s)
  case 0
  then show ?case by simp
next
  case (Suc n)
  have "dom (handlers s) \<subseteq> dom (handlers (snd (Subscribe T h s)))"
    by (auto simp: dom_Subscribe)
  also have "\<dots> \<subseteq> dom (handlers (snd (Subscribe_times n T h (snd (Subscribe T h s)))))"
    by (rule Suc.IH)
  finally show ?case by (simp add: split_beta Let_def)
qed

lemma handlers_Subscribe_times:
  assumes "0 < n"
  shows "typeof_new T \<in> dom (handlers (snd (Subscribe_times n T h s)))"
proof -
  from assms obtain m where n: "n = Suc m" by (cases n) auto
  have "typeof_new T \<in> dom (handlers (snd (Subscribe T h s)))" by (simp add: dom_Subscribe)
  with dom_Subscribe_times [of "snd (Subscribe T h s)" m T h] n show ?thesis
    by (auto simp: split_beta Let_def)
qed

lemma handlers_slice_at: "k \<in> dom (handlers s) \<Longrightarrow> handlers s k = Some (slice_at s k)"
  by (auto simp: slice_at_def)

lemma distinct_ids_upto:
  assumes "n < 2 ^ 64"
  shows "distinct (map (\<lambda>k. (c :: 64 word) + of_nat k) [1..<Suc n])"
proof -
  have "inj_on (\<lambda>k. c + (of_nat k :: 64 word)) (set [1..<Suc n])"
  proof (rule inj_onI)
    fix a b assume ab: "a \<in> set [1..<Suc n]" "b \<in> set [1..<Suc n]"
      and "c + (of_nat a :: 64 word) = c + of_nat b"
    then have "(of_nat a :: 64 word) = of_nat b" by simp
    then have "unat (of_nat a :: 64 word) = unat (of_nat b :: 64 word)" by simp
    then have m: "a mod 2 ^ 64 = b mod 2 ^ 64" by (simp add: unat_of_nat)
    from ab have "a \<le> n" "b \<le> n" by auto
    with assms have "a mod 2 ^ 64 = a" "b mod 2 ^ 64 = b" by simp_all
    with m show "a = b" by simp
  qed
  then show ?thesis by (simp add: distinct_map del: upt_Suc)
qed

lemma nth_not_in_take: "distinct xs \<Longrightarrow> k < length xs \<Longrightarrow> xs ! k \<notin> set (take k xs)"
  by (auto simp: in_set_conv_nth distinct_conv_nth)

text \<open>
  C10. For a type \<open>T\<close> with no entry, \<open>n\<close> calls \<^verbatim>\<open>Subscribe[T](h)\<close> with the same handler
  (\<open>n\<close> below \<open>2^64\<close>, more than any slice can hold) leave \<open>n\<close> entries for \<open>T\<close>, all holding
  \<open>h\<close>, with the \<open>n\<close> distinct ids that the calls returned. \<^verbatim>\<open>Publish\<close> of a value filed under
  the key of \<open>T\<close> then calls \<open>h\<close> exactly \<open>n\<close> times, and each entry is removed on its own by
  \<^verbatim>\<open>Unsubscribe\<close> with its id: the call returns true and takes out that entry only.
\<close>

theorem Subscribe_never_deduplicates:
  assumes fresh: "slice_at s (typeof_new T) = []"
      and typed: "assert_Handler T h"
      and key: "reflect_TypeOf e = typeof_new T"
      and n: "n < 2 ^ 64"
  shows "(let (ids, s') = Subscribe_times n T h s; hs = slice_at s' (typeof_new T)
          in length hs = n \<and> map entry_id hs = ids \<and> distinct ids \<and>
             map entry_handler hs = replicate n h \<and>
             fst (snd (Publish T e s')) = replicate n (Invoke h e) \<and>
             (0 < n \<longrightarrow> fst (Publish T e s') = None) \<and>
             (\<forall>k<n. Unsubscribe T (ids ! k) s' =
                (True, s'\<lparr>handlers := (handlers s')(typeof_new T \<mapsto> take k hs @ drop (Suc k) hs)\<rparr>)))"
proof -
  let ?K = "typeof_new T"
  let ?s' = "snd (Subscribe_times n T h s)"
  let ?ids = "fst (Subscribe_times n T h s)"
  let ?hs = "slice_at ?s' ?K"
  have hs: "?hs = map (\<lambda>j. \<lparr>entry_id = subscriberId s + of_nat j, entry_handler = h\<rparr>) [1..<Suc n]"
    by (simp add: Subscribe_times_slice fresh del: upt_Suc)
  have ids: "?ids = map (\<lambda>k. subscriberId s + of_nat k) [1..<Suc n]"
    by (rule Subscribe_times_ids)
  have len: "length ?hs = n" by (simp add: hs del: upt_Suc)
  have idmap: "map entry_id ?hs = ?ids" by (simp add: hs ids comp_def del: upt_Suc)
  have dist: "distinct ?ids" unfolding ids using n by (rule distinct_ids_upto)
  have hmap: "map entry_handler ?hs = replicate n h"
    by (simp add: hs comp_def map_replicate_const del: upt_Suc)
  have good: "\<forall>x\<in>set ?hs. assert_Handler T (entry_handler x)"
    using typed by (auto simp: hs simp del: upt_Suc)
  have inv: "map (\<lambda>x. Invoke (entry_handler x) e) ?hs = replicate n (Invoke h e)"
    by (simp add: hs comp_def map_replicate_const del: upt_Suc)
  have pub: "fst (snd (Publish T e ?s')) = replicate n (Invoke h e)"
  proof (cases "handlers ?s' ?K")
    case None
    then have "?hs = []" by (simp add: slice_at_def)
    with len have "n = 0" by simp
    with None key show ?thesis by (simp add: Publish_def Let_def)
  next
    case (Some xs)
    then have "?hs = xs" by (simp add: slice_at_def)
    with Some key good inv show ?thesis
      by (simp add: Publish_def Let_def Publish_loop_good)
  qed
  have ok: "fst (Publish T e ?s') = None" if "0 < n"
  proof -
    from that have "?K \<in> dom (handlers ?s')" by (rule handlers_Subscribe_times)
    then have "handlers ?s' ?K = Some ?hs" by (rule handlers_slice_at)
    with key good show ?thesis by (simp add: Publish_def Let_def Publish_loop_good)
  qed
  have unsub: "Unsubscribe T (?ids ! k) ?s' =
      (True, ?s'\<lparr>handlers := (handlers ?s')(?K \<mapsto> take k ?hs @ drop (Suc k) ?hs)\<rparr>)" if "k < n" for k
  proof -
    from that have "0 < n" by simp
    then have "?K \<in> dom (handlers ?s')" by (rule handlers_Subscribe_times)
    then have "handlers ?s' ?K = Some ?hs" by (rule handlers_slice_at)
    also have "?hs = take k ?hs @ ?hs ! k # drop (Suc k) ?hs"
      using that len by (simp add: id_take_nth_drop)
    finally have 1: "handlers ?s' ?K = Some (take k ?hs @ ?hs ! k # drop (Suc k) ?hs)" .
    have 2: "entry_id (?hs ! k) = ?ids ! k"
      using that len by (simp add: idmap [symmetric])
    have "?ids ! k \<notin> set (take k ?ids)"
      using dist that len idmap by (intro nth_not_in_take) (simp_all add: ids del: upt_Suc)
    moreover have "set (take k ?ids) = entry_id ` set (take k ?hs)"
      unfolding idmap [symmetric] by (simp only: take_map set_map)
    ultimately have 3: "?ids ! k \<notin> entry_id ` set (take k ?hs)" by simp
    from Unsubscribe_present [OF 1 2 3] show ?thesis .
  qed
  from len idmap dist hmap pub ok unsub show ?thesis
    by (simp add: split_beta Let_def)
qed

theorem Subscribe_never_deduplicates_witness:
  "(let T = Concrete ''Ping''; h = Impl T ''h''; e = Event (Some T) ''Ping{}'';
        (ids, s') = Subscribe_times 3 T h init
    in slice_at init (typeof_new T) = [] \<and> assert_Handler T h \<and>
       reflect_TypeOf e = typeof_new T \<and> (3 :: nat) < 2 ^ 64 \<and>
       ids = [1, 2, 3] \<and>
       slice_at s' (typeof_new T) =
         [\<lparr>entry_id = 1, entry_handler = h\<rparr>, \<lparr>entry_id = 2, entry_handler = h\<rparr>,
          \<lparr>entry_id = 3, entry_handler = h\<rparr>] \<and>
       Publish T e s' = (None, [Invoke h e, Invoke h e, Invoke h e], s') \<and>
       fst (Unsubscribe T 2 s') \<and>
       slice_at (snd (Unsubscribe T 2 s')) (typeof_new T) =
         [\<lparr>entry_id = 1, entry_handler = h\<rparr>, \<lparr>entry_id = 3, entry_handler = h\<rparr>])"
proof -
  let ?T = "Concrete ''Ping''"
  let ?h = "Impl ?T ''h''"
  let ?e = "Event (Some ?T) ''Ping{}''"
  let ?s' = "snd (Subscribe_times 3 ?T ?h init)"
  let ?hs = "[\<lparr>entry_id = 1, entry_handler = ?h\<rparr>, \<lparr>entry_id = 2, entry_handler = ?h\<rparr>,
          \<lparr>entry_id = 3, entry_handler = ?h\<rparr>]"
  have f: "slice_at init (typeof_new ?T) = []" by (simp add: slice_at_def init_def)
  have t: "assert_Handler ?T ?h" by simp
  have k: "reflect_TypeOf ?e = typeof_new ?T" by (simp add: reflect_TypeOf_def)
  have n: "(3 :: nat) < 2 ^ 64" by simp
  have ids: "fst (Subscribe_times 3 ?T ?h init) = [1, 2, 3]"
    by (simp add: numeral_3_eq_3 split_beta Let_def Subscribe_def generateHandlerId_def
        slice_at_def init_def)
  have sl: "slice_at ?s' (typeof_new ?T) = ?hs"
    by (simp add: numeral_3_eq_3 split_beta Let_def Subscribe_def generateHandlerId_def
        slice_at_def init_def)
  note th = Subscribe_never_deduplicates [OF f t k n]
  from th sl have p1: "fst (snd (Publish ?T ?e ?s')) = [Invoke ?h ?e, Invoke ?h ?e, Invoke ?h ?e]"
    by (simp add: split_beta Let_def numeral_3_eq_3)
  from th have p2: "fst (Publish ?T ?e ?s') = None"
    by (simp add: split_beta Let_def)
  have p3: "snd (snd (Publish ?T ?e ?s')) = ?s'" by (rule Publish_frame)
  from p1 p2 p3 have p: "Publish ?T ?e ?s' = (None, [Invoke ?h ?e, Invoke ?h ?e, Invoke ?h ?e], ?s')"
    by (metis prod.collapse)
  from th ids sl have u: "Unsubscribe ?T 2 ?s' =
      (True, ?s'\<lparr>handlers := (handlers ?s')(typeof_new ?T \<mapsto> take 1 ?hs @ drop (Suc 1) ?hs)\<rparr>)"
    by (simp add: split_beta Let_def All_less_Suc numeral_3_eq_3)
  then have u1: "fst (Unsubscribe ?T 2 ?s')"
    and u2: "slice_at (snd (Unsubscribe ?T 2 ?s')) (typeof_new ?T) =
         [\<lparr>entry_id = 1, entry_handler = ?h\<rparr>, \<lparr>entry_id = 3, entry_handler = ?h\<rparr>]"
    by (simp_all add: slice_at_def)
  from f t k ids sl p u1 u2 show ?thesis
    by (simp add: split_beta Let_def)
qed

subsection \<open>After the counter has wrapped\<close>

lemma Subscribe_times_counter:
  "subscriberId (snd (Subscribe_times n T h s)) = subscriberId s + of_nat n"
  by (induction n arbitrary: s) (simp_all add: split_beta Let_def subscriberId_Subscribe)

lemma handlers_Subscribe_at:
  "handlers (snd (Subscribe T h s)) (typeof_new T) =
     Some (slice_at s (typeof_new T) @ [\<lparr>entry_id = subscriberId s + 1, entry_handler = h\<rparr>])"
  by (simp add: Subscribe_snd)

lemma reused_id_removed_twice:
  assumes n: "n = 2 ^ 64 - 1" and k: "typeof_new U \<noteq> typeof_new T"
  shows "(let (i, s1) = Subscribe T h1 init;
              (ids, s2) = Subscribe_times n U h2 s1;
              (j, s3) = Subscribe T h3 s2;
              (r1, s4) = Unsubscribe T j s3;
              (r2, s5) = Unsubscribe T j s4
          in i = 1 \<and> j = 1 \<and> r1 \<and> slice_at s4 (typeof_new T) = [\<lparr>entry_id = 1, entry_handler = h3\<rparr>] \<and> r2)"
proof -
  let ?K = "typeof_new T"
  let ?s1 = "snd (Subscribe T h1 init)"
  let ?s2 = "snd (Subscribe_times n U h2 ?s1)"
  let ?s3 = "snd (Subscribe T h3 ?s2)"
  let ?a = "\<lparr>entry_id = 1, entry_handler = h1\<rparr>"
  let ?b = "\<lparr>entry_id = 1, entry_handler = h3\<rparr>"
  have i: "fst (Subscribe T h1 init) = 1" by (simp add: Subscribe_fst init_def)
  have sl0: "slice_at init ?K = []" "subscriberId init = 0" by (simp_all add: init_def slice_at_def)
  have sl1: "slice_at ?s1 ?K = [?a]" by (simp add: slice_at_Subscribe sl0)
  have c1: "subscriberId ?s1 = 1" by (simp add: subscriberId_Subscribe init_def)
  have sl2: "slice_at ?s2 ?K = [?a]" using k by (simp add: Subscribe_times_slice sl1)
  have "(1 :: 64 word) + of_nat n = 0" using n by simp
  then have c2: "subscriberId ?s2 = 0" by (simp add: Subscribe_times_counter c1)
  have j: "fst (Subscribe T h3 ?s2) = 1" by (simp add: Subscribe_fst c2)
  have h3: "handlers ?s3 ?K = Some ([] @ ?a # [?b])"
    by (subst handlers_Subscribe_at) (simp add: sl2 c2)
  from Unsubscribe_present [OF h3]
  have u1: "Unsubscribe T 1 ?s3 = (True, ?s3\<lparr>handlers := (handlers ?s3)(?K \<mapsto> [?b])\<rparr>)" by simp
  let ?s4 = "?s3\<lparr>handlers := (handlers ?s3)(?K \<mapsto> [?b])\<rparr>"
  have sl4: "slice_at ?s4 ?K = [?b]" by (simp add: slice_at_def)
  have h4: "handlers ?s4 ?K = Some ([] @ ?b # [])" by simp
  from Unsubscribe_present [OF h4]
  have u2: "fst (Unsubscribe T 1 ?s4)" by simp
  from i j u1 u2 sl4 show ?thesis by (simp add: split_beta Let_def)
qed

text \<open>
  C7, as the claim has it, for every state: \<^verbatim>\<open>Subscribe[Ping]\<close> returns 1; after
  \<open>2^64 - 1\<close> further subscriptions (here for another type) the counter is back at 0 and the
  next \<^verbatim>\<open>Subscribe[Ping]\<close> returns 1 again, so that two entries of \<^verbatim>\<open>Ping\<close> carry the id 1.
  The first \<^verbatim>\<open>Unsubscribe[Ping](1)\<close> returns true and removes the older of the two, and the
  second call with the same id returns true as well.
\<close>

theorem Unsubscribe_twice_after_wrap:
  "(let T = Concrete ''Ping''; U = Concrete ''Order'';
        (i, s1) = Subscribe T (Impl T ''h1'') init;
        (ids, s2) = Subscribe_times (2 ^ 64 - 1) U (Impl U ''h2'') s1;
        (j, s3) = Subscribe T (Impl T ''h3'') s2;
        (r1, s4) = Unsubscribe T j s3;
        (r2, s5) = Unsubscribe T j s4
    in i = 1 \<and> j = 1 \<and> r1 \<and>
       slice_at s4 (typeof_new T) = [\<lparr>entry_id = 1, entry_handler = Impl T ''h3''\<rparr>] \<and> r2)"
  using reused_id_removed_twice
          [of "2 ^ 64 - 1" "Concrete ''Order''" "Concrete ''Ping''"
              "Impl (Concrete ''Ping'') ''h1''" "Impl (Concrete ''Order'') ''h2''"
              "Impl (Concrete ''Ping'') ''h3''"]
  unfolding Let_def by simp

end
